theory Spec2Isabelle
  imports Main "HOL-Library.Sublist" "HOL-Library.Char_ord" "HOL-Library.List_Lexorder"
    "HOL-Library.AList"
begin

section \<open>Value trees\<close>

text \<open>
  Schema trees and actual trees are Go values of type \<^verbatim>\<open>interface{}\<close>. The model keeps
  what the engine can tell apart: nil, scalars, maps with string keys, slices, and
  \<^verbatim>\<open>IsDef\<close> structs.

  \<^item> \<^verbatim>\<open>reflect\<close> sees the kind of a value (map, slice, anything else), while the type
    switch of \<^verbatim>\<open>Compile\<close> sees whether the dynamic type is the package's own
    \<^verbatim>\<open>Map\<close> or \<^verbatim>\<open>Slice\<close>. The tag \<open>Named\<close> marks a map of type \<^verbatim>\<open>Map\<close>
    (a slice of type \<^verbatim>\<open>Slice\<close>); \<open>Unnamed\<close> marks any other map or slice type, such
    as \<^verbatim>\<open>map[string]interface{}\<close>.
  \<^item> A Go map is an association list here. Go keeps the keys of a map distinct
    (\<open>wellFormed\<close> below) and iterates it in no fixed order; the order of the list
    stands for the order one iteration happens to take.
  \<^item> The \<^verbatim>\<open>Checker\<close> of an \<^verbatim>\<open>IsDef\<close> is a Go function. It is represented by a
    description: \<open>IsEqualTo w\<close> is the deep-equality check against \<open>w\<close>, and
    \<open>External n\<close> is the \<open>n\<close>-th predicate of the predicate library, which the core
    only calls.
\<close>

datatype typeTag = Named | Unnamed

datatype scalar = SBool bool | SInt int | SStr string

datatype val =
    VNil
  | VScalar scalar
  | VMap typeTag "(string \<times> val) list"
  | VSlice typeTag "val list"
  | VIsDef IsDef
and IsDef = IsDef (Name: string) (Optional: bool) (Checker: checker)
and checker = IsEqualTo val | External nat

section \<open>Path model (paths file of package lookslike)\<close>

text \<open>
  \<^verbatim>\<open>pathComponentType\<close> is an integer enumeration with the three named values
  \<^verbatim>\<open>pcMapKey\<close>, \<^verbatim>\<open>pcSliceIdx\<close> and \<^verbatim>\<open>pcScalar\<close>.
\<close>

datatype pathComponentType = pcMapKey | pcSliceIdx | pcScalar

text \<open>
  \<^verbatim>\<open>type pathComponent struct { Type; Key string; Index int }\<close>.
  Go's \<^verbatim>\<open>int\<close> is taken to be 64 bits wide; \<open>Index\<close> is an integer and the
  bounds \<open>- 2 ^ 63 \<le> i < 2 ^ 63\<close> are written out where they matter.
\<close>

record pathComponent =
  Type :: pathComponentType
  Key :: string
  Index :: int

type_synonym Path = "pathComponent list"

subsection \<open>Rendering\<close>

text \<open>The decimal digit for \<open>d < 10\<close>.\<close>

definition digitChar :: "nat \<Rightarrow> char" where
  "digitChar d = ''0123456789'' ! d"

text \<open>Decimal rendering of a natural number, as \<^verbatim>\<open>%d\<close> prints it.\<close>

fun showNat :: "nat \<Rightarrow> string" where
  "showNat n = (if n < 10 then [digitChar n] else showNat (n div 10) @ [digitChar (n mod 10)])"

declare showNat.simps [simp del]

definition showInt :: "int \<Rightarrow> string" where
  "showInt i = (if i < 0 then CHR ''-'' # showNat (nat (- i)) else showNat (nat i))"

text \<open>\<^verbatim>\<open>func (pc pathComponent) String() string\<close>\<close>

definition pathComponent_String :: "pathComponent \<Rightarrow> string" where
  "pathComponent_String pc =
     (if Type pc = pcSliceIdx then ''['' @ showInt (Index pc) @ '']'' else Key pc)"

text \<open>\<^verbatim>\<open>strings.Join(out, sep)\<close>\<close>

fun Join :: "string list \<Rightarrow> string \<Rightarrow> string" where
  "Join [] sep = []"
| "Join [x] sep = x"
| "Join (x # y # ys) sep = x @ sep @ Join (y # ys) sep"

text \<open>\<^verbatim>\<open>func (p Path) String() string\<close>\<close>

definition Path_String :: "Path \<Rightarrow> string" where
  "Path_String p = Join (map pathComponent_String p) ''.''"

subsection \<open>Construction\<close>

definition Extend :: "Path \<Rightarrow> pathComponent \<Rightarrow> Path" where
  "Extend p pc = p @ [pc]"

definition ExtendSlice :: "Path \<Rightarrow> int \<Rightarrow> Path" where
  "ExtendSlice p index = Extend p \<lparr>Type = pcSliceIdx, Key = [], Index = index\<rparr>"

definition ExtendMap :: "Path \<Rightarrow> string \<Rightarrow> Path" where
  "ExtendMap p key = Extend p \<lparr>Type = pcMapKey, Key = key, Index = - 1\<rparr>"

definition Concat :: "Path \<Rightarrow> Path \<Rightarrow> Path" where
  "Concat p other = p @ other"

text \<open>\<^verbatim>\<open>func (p Path) Last() *pathComponent\<close>: \<open>None\<close> is the nil pointer.\<close>

definition Last :: "Path \<Rightarrow> pathComponent option" where
  "Last p = (if p = [] then None else Some (last p))"

subsection \<open>Parsing\<close>

datatype numErr = ErrSyntax | ErrRange

text \<open>
  The errors the package returns: \<^verbatim>\<open>InvalidPathString\<close>, the \<^verbatim>\<open>*strconv.NumError\<close> that
  \<^verbatim>\<open>ParsePath\<close> passes on, and the error of \<^verbatim>\<open>Compile\<close>, whose message is formatted
  from the rejected input (\<^verbatim>\<open>%v\<close> and \<^verbatim>\<open>%T\<close>) and is represented by that input.
\<close>

datatype error =
    InvalidPathString string
  | NumError string numErr
  | CannotCompile val

definition isDigit :: "char \<Rightarrow> bool" where
  "isDigit c = (48 \<le> (of_char c :: nat) \<and> (of_char c :: nat) \<le> 57)"

definition digitVal :: "char \<Rightarrow> nat" where
  "digitVal c = of_char c - 48"

text \<open>The number a string of decimal digits denotes.\<close>

definition decimal :: "string \<Rightarrow> nat" where
  "decimal s = foldl (\<lambda>acc c. 10 * acc + digitVal c) 0 s"

text \<open>
  \<^verbatim>\<open>strconv.Atoi\<close> for a 64-bit \<^verbatim>\<open>int\<close>: an optional sign, then one or more decimal
  digits; a value outside \<open>- 2 ^ 63 .. 2 ^ 63 - 1\<close> is a range error.
\<close>

definition Atoi :: "string \<Rightarrow> error + int" where
  "Atoi s =
     (let neg = (s \<noteq> [] \<and> hd s = CHR ''-'');
          ds = (if s \<noteq> [] \<and> (hd s = CHR ''-'' \<or> hd s = CHR ''+'') then tl s else s)
      in if ds = [] \<or> \<not> list_all isDigit ds then Inl (NumError s ErrSyntax)
         else if neg then
           (if decimal ds \<le> 2 ^ 63 then Inr (- int (decimal ds)) else Inl (NumError s ErrRange))
         else
           (if decimal ds \<le> 2 ^ 63 - 1 then Inr (int (decimal ds)) else Inl (NumError s ErrRange)))"

text \<open>
  \<^verbatim>\<open>strings.Split(in, ".")\<close> for the one-byte separator the parser uses: the result is
  never empty, and the empty string splits into one empty part.
\<close>

fun Split :: "string \<Rightarrow> char \<Rightarrow> string list" where
  "Split [] sep = [[]]"
| "Split (c # cs) sep =
     (if c = sep then [] # Split cs sep
      else (case Split cs sep of [] \<Rightarrow> [[c]] | part # parts \<Rightarrow> (c # part) # parts))"

text \<open>
  \<^verbatim>\<open>arrMatcher = regexp.MustCompile("\\[(\\d+)\\]")\<close>. The expression is not anchored:
  \<^verbatim>\<open>FindStringSubmatch\<close> returns the leftmost match anywhere in the string.
  \<open>arrMatchHere\<close> matches at the first byte and returns the capture group;
  \<open>FindStringSubmatch\<close> returns the capture group of the leftmost match, \<open>None\<close> when
  the Go result is the empty slice.
\<close>

definition arrMatchHere :: "string \<Rightarrow> string option" where
  "arrMatchHere s =
     (case s of
        [] \<Rightarrow> None
      | c # rest \<Rightarrow>
          if c = CHR ''[''
             \<and> takeWhile isDigit rest \<noteq> []
             \<and> dropWhile isDigit rest \<noteq> []
             \<and> hd (dropWhile isDigit rest) = CHR '']''
          then Some (takeWhile isDigit rest) else None)"

fun FindStringSubmatch :: "string \<Rightarrow> string option" where
  "FindStringSubmatch [] = None"
| "FindStringSubmatch (c # cs) =
     (case arrMatchHere (c # cs) of
        Some d \<Rightarrow> Some d
      | None \<Rightarrow> FindStringSubmatch cs)"

text \<open>
  The loop of \<^verbatim>\<open>ParsePath\<close> over the parts, in order; the first part that fails ends it.
  The Go function returns a pair; on a number error it returns the partly filled path
  beside the error, on an empty part it returns nil beside the error. The model keeps the
  error alone in both cases.
\<close>

fun parseParts :: "string \<Rightarrow> string list \<Rightarrow> error + Path" where
  "parseParts inp [] = Inr []"
| "parseParts inp (part # parts) =
     (case FindStringSubmatch part of
        Some d \<Rightarrow>
          (case Atoi d of
             Inl e \<Rightarrow> Inl e
           | Inr i \<Rightarrow>
               (case parseParts inp parts of
                  Inl e \<Rightarrow> Inl e
                | Inr p \<Rightarrow> Inr (\<lparr>Type = pcSliceIdx, Key = [], Index = i\<rparr> # p)))
      | None \<Rightarrow>
          if part \<noteq> [] then
            (case parseParts inp parts of
               Inl e \<Rightarrow> Inl e
             | Inr p \<Rightarrow> Inr (\<lparr>Type = pcMapKey, Key = part, Index = - 1\<rparr> # p))
          else Inl (InvalidPathString inp))"

definition ParsePath :: "string \<Rightarrow> error + Path" where
  "ParsePath inp = parseParts inp (Split inp CHR ''.'')"

subsection \<open>Lookup\<close>

text \<open>
  A Go run-time panic. \<^verbatim>\<open>reflect.TypeOf(nil)\<close> is the nil \<^verbatim>\<open>reflect.Type\<close>, and calling
  \<^verbatim>\<open>Kind()\<close> on it dereferences nil; indexing a slice below zero is out of range.
\<close>

datatype panic = NilDereference | IndexOutOfRange int nat

text \<open>
  \<^verbatim>\<open>func (p Path) GetFrom(m interface{}) (value interface{}, exists bool)\<close>.
  The loop over the components is the recursion on the path. The switch is on the kind of
  the current value alone; the \<open>Type\<close> of the component is not looked at. For a map the
  component's \<open>Key\<close> is looked up; for a slice only \<^verbatim>\<open>pc.Index < len(converted)\<close> is
  tested before \<^verbatim>\<open>converted[pc.Index]\<close> is read.
\<close>

fun GetFrom :: "Path \<Rightarrow> val \<Rightarrow> panic + (val \<times> bool)" where
  "GetFrom [] v = Inr (v, True)"
| "GetFrom (pc # p) VNil = Inl NilDereference"
| "GetFrom (pc # p) (VMap t m) =
     (case map_of m (Key pc) of
        None \<Rightarrow> Inr (VNil, False)
      | Some v \<Rightarrow> GetFrom p v)"
| "GetFrom (pc # p) (VSlice t xs) =
     (if Index pc < int (length xs) then
        (if Index pc < 0 then Inl (IndexOutOfRange (Index pc) (length xs))
         else GetFrom p (xs ! nat (Index pc)))
      else Inr (VNil, False))"
| "GetFrom (pc # p) (VScalar s) = Inr (VNil, False)"
| "GetFrom (pc # p) (VIsDef d) = Inr (VNil, False)"

section \<open>Results and predicates\<close>

text \<open>
  Modelled from the spec: the type \<^verbatim>\<open>ValueResult\<close> (the spec's Outcome) is not among the
  source files. An outcome is a pass/fail flag and a message; the path it applies to is
  kept beside it in the entry of \<open>Results\<close>.
\<close>

record ValueResult =
  Valid :: bool
  Message :: string

text \<open>
  Modelled from the spec: the type \<^verbatim>\<open>Results\<close> is not among the source files; the code
  at hand reads \<^verbatim>\<open>results.Fields\<close> as a map keyed by rendered path strings. Following
  the spec it maps a rendered path to one outcome. The map is an association list whose
  order stands for the iteration order.
\<close>

record Results =
  Fields :: "(string \<times> Path \<times> ValueResult) list"

text \<open>Modelled from the spec: \<^verbatim>\<open>NewResults\<close>, the empty report.\<close>

definition NewResults :: Results where
  "NewResults = \<lparr>Fields = []\<rparr>"

text \<open>
  Modelled from the spec: \<^verbatim>\<open>(*Results).record\<close>, which stores one outcome under the
  rendered path; a later entry for the same rendered path replaces the earlier one.
\<close>

definition Results_record :: "Results \<Rightarrow> Path \<Rightarrow> ValueResult \<Rightarrow> Results" where
  "Results_record r p vr = r\<lparr>Fields := AList.update (Path_String p) (p, vr) (Fields r)\<rparr>"

text \<open>
  Modelled from the spec: \<^verbatim>\<open>(*Results).EachResult\<close>, the finite sequence of the recorded
  (path, outcome) pairs. Every visitor in the code at hand returns true, so the sequence
  is always consumed whole.
\<close>

definition EachResult :: "Results \<Rightarrow> (Path \<times> ValueResult) list" where
  "EachResult r = map snd (Fields r)"

text \<open>
  Modelled from the spec: \<^verbatim>\<open>(*Results).merge\<close>, which records every entry of another
  report again.
\<close>

definition merge :: "Results \<Rightarrow> Results \<Rightarrow> Results" where
  "merge r other = foldl (\<lambda>acc (p, vr). Results_record acc p vr) r (EachResult other)"

text \<open>Modelled from the spec: a report holding one outcome at one path.\<close>

definition SimpleResult :: "Path \<Rightarrow> bool \<Rightarrow> string \<Rightarrow> Results" where
  "SimpleResult p valid msg = Results_record NewResults p \<lparr>Valid = valid, Message = msg\<rparr>"

text \<open>
  Modelled from the spec: the outcome of \<^verbatim>\<open>StrictFailureResult\<close>, a failure with the
  message "unexpected key".
\<close>

definition strictFailure :: ValueResult where
  "strictFailure = \<lparr>Valid = False, Message = ''unexpected key''\<rparr>"

text \<open>
  Modelled from the spec: \<^verbatim>\<open>StrictFailureResult\<close>, the report holding the "unexpected key"
  failure at a path.
\<close>

definition StrictFailureResult :: "Path \<Rightarrow> Results" where
  "StrictFailureResult p = Results_record NewResults p strictFailure"

text \<open>\<^verbatim>\<open>func Is(name string, checker ValueValidator) IsDef\<close>\<close>

definition Is :: "string \<Rightarrow> checker \<Rightarrow> IsDef" where
  "Is name chk = IsDef name False chk"

text \<open>\<^verbatim>\<open>func Optional(id IsDef) IsDef\<close>\<close>

definition Optional_IsDef :: "IsDef \<Rightarrow> IsDef" where
  "Optional_IsDef d = IsDef (''Optional '' @ Name d) True (Checker d)"

text \<open>
  Modelled from the spec: \<^verbatim>\<open>IsEqual\<close>, the default deep-equality predicate that wraps a
  schema leaf which is not an \<^verbatim>\<open>IsDef\<close>.
\<close>

definition IsEqual :: "val \<Rightarrow> IsDef" where
  "IsEqual v = IsDef ''equals'' False (IsEqualTo v)"

text \<open>
  The predicate library: what the \<open>n\<close>-th external predicate answers for a path, the
  value found there and the existence flag.
\<close>

type_synonym predicates = "nat \<Rightarrow> Path \<Rightarrow> val \<Rightarrow> bool \<Rightarrow> ValueResult"

text \<open>
  Modelled from the spec: \<^verbatim>\<open>(IsDef).Check\<close>. An optional predicate passes when the value
  is absent; otherwise the predicate's own check decides. Deep equality holds for a value
  that exists and equals the expected one; the two are compared as values of the model,
  dynamic type of a collection and order of the entries of a map included. The outcome is
  recorded at the given path. The spec fixes no message but that of the "unexpected key"
  failure; the other messages are placeholders.
\<close>

definition IsDef_Check :: "predicates \<Rightarrow> IsDef \<Rightarrow> Path \<Rightarrow> val \<Rightarrow> bool \<Rightarrow> Results" where
  "IsDef_Check ext d p v keyExists =
     (if Optional d \<and> \<not> keyExists then SimpleResult p True ''absent, and optional''
      else (case Checker d of
              IsEqualTo w \<Rightarrow> SimpleResult p (keyExists \<and> v = w) ''deep equality''
            | External n \<Rightarrow> Results_record NewResults p (ext n p v keyExists)))"

section \<open>Tree walker\<close>

text \<open>
  Modelled from the spec: \<^verbatim>\<open>walkObserverInfo\<close>, of which the code at hand reads the fields
  \<^verbatim>\<open>value\<close> and \<^verbatim>\<open>path\<close>.
\<close>

record walkObserverInfo =
  woi_value :: val
  woi_path :: Path

text \<open>
  A \<^verbatim>\<open>walkObserver\<close> is a Go closure returning an error; the variables it captures and
  updates are the state \<open>'s\<close> passed through it.
\<close>

type_synonym 's walkObserver = "walkObserverInfo \<Rightarrow> 's \<Rightarrow> error option \<times> 's"

text \<open>
  Modelled from the spec: the recursive traversal behind \<^verbatim>\<open>walk\<close>, \<^verbatim>\<open>walkMap\<close> and
  \<^verbatim>\<open>walkSlice\<close>, which are not among the source files. The observer is called once for
  every node reached, with the node and its path; the entries of a map are then visited
  in the order of the map, each under the path extended by its key, and the elements of a
  slice in the order \<open>0 .. n - 1\<close>, each under the path extended by its index. The
  traversal stops at the first error an observer returns. Whether a node is to be tested is
  the observer's decision (\<open>setupWalkObserver\<close> below makes it).
\<close>

fun walkFull :: "val \<Rightarrow> Path \<Rightarrow> 's walkObserver \<Rightarrow> 's \<Rightarrow> error option \<times> 's"
  and walkFullMap :: "(string \<times> val) list \<Rightarrow> Path \<Rightarrow> 's walkObserver \<Rightarrow> 's \<Rightarrow> error option \<times> 's"
  and walkFullSlice :: "val list \<Rightarrow> nat \<Rightarrow> Path \<Rightarrow> 's walkObserver \<Rightarrow> 's \<Rightarrow> error option \<times> 's"
where
  "walkFull v p wo s =
     (case wo \<lparr>woi_value = v, woi_path = p\<rparr> s of
        (Some e, s') \<Rightarrow> (Some e, s')
      | (None, s') \<Rightarrow>
          (case v of
             VMap t m \<Rightarrow> walkFullMap m p wo s'
           | VSlice t xs \<Rightarrow> walkFullSlice xs 0 p wo s'
           | _ \<Rightarrow> (None, s')))"
| "walkFullMap [] p wo s = (None, s)"
| "walkFullMap ((k, v) # m) p wo s =
     (case walkFull v (ExtendMap p k) wo s of
        (Some e, s') \<Rightarrow> (Some e, s')
      | (None, s') \<Rightarrow> walkFullMap m p wo s')"
| "walkFullSlice [] idx p wo s = (None, s)"
| "walkFullSlice (v # xs) idx p wo s =
     (case walkFull v (ExtendSlice p (int idx)) wo s of
        (Some e, s') \<Rightarrow> (Some e, s')
      | (None, s') \<Rightarrow> walkFullSlice xs (Suc idx) p wo s')"

text \<open>
  Modelled from the spec: \<^verbatim>\<open>walk\<close>, which starts the traversal at the root of any value,
  under the empty path. The callers of \<^verbatim>\<open>walk\<close>, \<^verbatim>\<open>walkMap\<close> and \<^verbatim>\<open>walkSlice\<close> pass a
  flag (\<^verbatim>\<open>true\<close> when compiling, \<^verbatim>\<open>false\<close> in \<^verbatim>\<open>Strict\<close>) of which the spec says
  nothing; it is taken and has no effect.
\<close>

definition walk :: "val \<Rightarrow> bool \<Rightarrow> 's walkObserver \<Rightarrow> 's \<Rightarrow> error option \<times> 's" where
  "walk v expandPaths wo s = walkFull v [] wo s"

text \<open>
  Modelled from the spec: \<^verbatim>\<open>walkMap\<close>, the traversal of a schema of type \<^verbatim>\<open>Map\<close> from its
  root.
\<close>

definition walkMap :: "(string \<times> val) list \<Rightarrow> bool \<Rightarrow> 's walkObserver \<Rightarrow> 's \<Rightarrow> error option \<times> 's" where
  "walkMap m expandPaths wo s = walkFull (VMap Named m) [] wo s"

text \<open>
  Modelled from the spec: \<^verbatim>\<open>walkSlice\<close>, the traversal of a schema of type \<^verbatim>\<open>Slice\<close> from
  its root.
\<close>

definition walkSlice :: "val list \<Rightarrow> bool \<Rightarrow> 's walkObserver \<Rightarrow> 's \<Rightarrow> error option \<times> 's" where
  "walkSlice xs expandPaths wo s = walkFull (VSlice Named xs) [] wo s"

section \<open>Compiling and evaluating (core file of package lookslike)\<close>

text \<open>
  Modelled from the spec: \<^verbatim>\<open>flatValidator\<close>, the pair of a path and a predicate that the
  observer appends with a positional literal, and \<^verbatim>\<open>CompiledSchema\<close>, the ordered
  sequence of them.
\<close>

record flatValidator =
  fv_path :: Path
  fv_isDef :: IsDef

type_synonym CompiledSchema = "flatValidator list"

text \<open>
  \<^verbatim>\<open>type Validator func(interface{}) *Results\<close>. A validator may panic, since \<open>GetFrom\<close>
  may.
\<close>

type_synonym Validator = "val \<Rightarrow> panic + Results"

text \<open>
  Modelled from the spec: the loop of \<^verbatim>\<open>(CompiledSchema).Check\<close>. For each flat validator in
  order, the path is looked up in the actual tree, the predicate is called with the path,
  the value found and the existence flag, and its outcome is recorded. A panic of the
  lookup ends the loop.
\<close>

fun checkEach :: "predicates \<Rightarrow> CompiledSchema \<Rightarrow> val \<Rightarrow> Results \<Rightarrow> panic + Results" where
  "checkEach ext [] actual res = Inr res"
| "checkEach ext (pv # cs) actual res =
     (case GetFrom (fv_path pv) actual of
        Inl pnc \<Rightarrow> Inl pnc
      | Inr (actualV, actualKeyExists) \<Rightarrow>
          checkEach ext cs actual
            (merge res (IsDef_Check ext (fv_isDef pv) (fv_path pv) actualV actualKeyExists)))"

text \<open>
  Modelled from the spec: \<^verbatim>\<open>(CompiledSchema).Check\<close>, the loop started on an empty report.
\<close>

definition CompiledSchema_Check :: "predicates \<Rightarrow> CompiledSchema \<Rightarrow> Validator" where
  "CompiledSchema_Check ext cs actual = checkEach ext cs actual NewResults"

text \<open>
  \<^verbatim>\<open>reflect.ValueOf(v).Kind()\<close> is \<^verbatim>\<open>Map\<close> or \<^verbatim>\<open>Slice\<close> for the two collections, and
  \<^verbatim>\<open>rv.Len()\<close> is the number of their entries.
\<close>

fun isCollection :: "val \<Rightarrow> bool" where
  "isCollection (VMap t m) = True"
| "isCollection (VSlice t xs) = True"
| "isCollection v = False"

fun Len :: "val \<Rightarrow> nat" where
  "Len (VMap t m) = length m"
| "Len (VSlice t xs) = length xs"
| "Len v = 0"

text \<open>
  \<^verbatim>\<open>func setupWalkObserver() (walkObserver, *CompiledSchema)\<close>. The observer is the
  closure returned; its state is the slice \<^verbatim>\<open>compiled\<close>, which starts empty.
\<close>

definition setupWalkObserver :: "CompiledSchema walkObserver" where
  "setupWalkObserver current compiled =
     (let isNonEmptyCollection = (isCollection (woi_value current) \<and> Len (woi_value current) > 0)
      in if \<not> isNonEmptyCollection then
           (None,
            compiled @
              [\<lparr>fv_path = woi_path current,
                fv_isDef = (case woi_value current of VIsDef d \<Rightarrow> d | v \<Rightarrow> IsEqual v)\<rparr>])
         else (None, compiled))"

text \<open>
  \<^verbatim>\<open>sort.Search(n, f)\<close>: the binary search of the standard library. The loop keeps
  \<open>i \<le> j\<close> and halves the distance at each turn.
\<close>

function searchLoop :: "(nat \<Rightarrow> bool) \<Rightarrow> nat \<Rightarrow> nat \<Rightarrow> nat" where
  "searchLoop f i j =
     (if i < j then
        (let h = (i + j) div 2
         in if \<not> f h then searchLoop f (h + 1) j else searchLoop f i h)
      else i)"
  by pat_completeness auto
termination
  by (relation "measure (\<lambda>(f, i, j). j - i)") auto

declare searchLoop.simps [simp del]

definition Search :: "nat \<Rightarrow> (nat \<Rightarrow> bool) \<Rightarrow> nat" where
  "Search n f = searchLoop f 0 n"

text \<open>\<^verbatim>\<open>sort.SearchStrings(a, x)\<close>, which searches for the first string not below \<open>x\<close>.\<close>

definition SearchStrings :: "string list \<Rightarrow> string \<Rightarrow> nat" where
  "SearchStrings a x = Search (length a) (\<lambda>i. a ! i \<ge> x)"

text \<open>\<^verbatim>\<open>strings.HasPrefix(s, prefix)\<close>\<close>

definition HasPrefix :: "string \<Rightarrow> string \<Rightarrow> bool" where
  "HasPrefix s pre = prefix pre s"

text \<open>
  The observer inside \<^verbatim>\<open>Strict\<close>. Its state is \<^verbatim>\<open>results\<close>, read and updated as the walk
  goes on; \<^verbatim>\<open>validatedPaths\<close> was computed before the walk.
\<close>

definition strictObserver :: "string list \<Rightarrow> Results walkObserver" where
  "strictObserver validatedPaths woi results =
     (let validatedExactly = (map_of (Fields results) (Path_String (woi_path woi)) \<noteq> None)
      in if validatedExactly then (None, results)
         else
           (let matchIdx = SearchStrings validatedPaths (Path_String (woi_path woi))
            in if matchIdx < length validatedPaths
                  \<and> HasPrefix (validatedPaths ! matchIdx) (Path_String (woi_path woi))
               then (None, results)
               else (None, merge results (StrictFailureResult (woi_path woi)))))"

text \<open>\<^verbatim>\<open>func Strict(laxValidator Validator) Validator\<close>\<close>

definition Strict :: "Validator \<Rightarrow> Validator" where
  "Strict laxValidator actual =
     (case laxValidator actual of
        Inl pnc \<Rightarrow> Inl pnc
      | Inr results \<Rightarrow>
          (let validatedPaths = sort (map fst (Fields results))
           in Inr (snd (walk actual False (strictObserver validatedPaths) results))))"



text \<open>
  \<^verbatim>\<open>compileMap\<close>, \<^verbatim>\<open>compileSlice\<close>, \<^verbatim>\<open>compileIsDef\<close> and \<^verbatim>\<open>Compile\<close> return a validator
  and an error; \<open>None\<close> is nil in either place.
\<close>

definition compileMap :: "predicates \<Rightarrow> (string \<times> val) list \<Rightarrow> Validator option \<times> error option" where
  "compileMap ext m =
     (let (err, compiled) = walkMap m True setupWalkObserver []
      in (Some (\<lambda>actual. CompiledSchema_Check ext compiled actual), err))"

definition compileSlice :: "predicates \<Rightarrow> val list \<Rightarrow> Validator option \<times> error option" where
  "compileSlice ext xs =
     (let (err, compiled) = walkSlice xs True setupWalkObserver []
      in (Some (Strict (\<lambda>actual. CompiledSchema_Check ext compiled actual)), err))"

definition compileIsDef :: "predicates \<Rightarrow> IsDef \<Rightarrow> Validator option \<times> error option" where
  "compileIsDef ext d = (Some (\<lambda>actual. Inr (IsDef_Check ext d [] actual True)), None)"

fun Compile :: "predicates \<Rightarrow> val \<Rightarrow> Validator option \<times> error option" where
  "Compile ext (VMap Named m) = compileMap ext m"
| "Compile ext (VSlice Named xs) = compileSlice ext xs"
| "Compile ext (VIsDef d) = compileIsDef ext d"
| "Compile ext v = (None, Some (CannotCompile v))"

subsection \<open>Vocabulary for the statements about parsing\<close>

text \<open>
  A key that survives rendering and parsing: not empty, without a dot, and without a
  bracketed run of digits anywhere in it.
\<close>

definition roundTripKey :: "string \<Rightarrow> bool" where
  "roundTripKey k = (k \<noteq> [] \<and> CHR ''.'' \<notin> set k \<and> FindStringSubmatch k = None)"

definition roundTripComponent :: "pathComponent \<Rightarrow> bool" where
  "roundTripComponent pc =
     (case Type pc of
        pcMapKey \<Rightarrow> Index pc = - 1 \<and> roundTripKey (Key pc)
      | pcSliceIdx \<Rightarrow> Key pc = [] \<and> 0 \<le> Index pc \<and> Index pc < 2 ^ 63
      | pcScalar \<Rightarrow> False)"

text \<open>
  The ways of building a path from the empty path, and the path each one builds.
\<close>

datatype construction =
    EmptyPath
  | ByExtendMap construction string
  | ByExtendSlice construction int
  | ByConcat construction construction

fun pathOf :: "construction \<Rightarrow> Path" where
  "pathOf EmptyPath = []"
| "pathOf (ByExtendMap b k) = ExtendMap (pathOf b) k"
| "pathOf (ByExtendSlice b i) = ExtendSlice (pathOf b) i"
| "pathOf (ByConcat a b) = Concat (pathOf a) (pathOf b)"

fun roundTripArgs :: "construction \<Rightarrow> bool" where
  "roundTripArgs EmptyPath = True"
| "roundTripArgs (ByExtendMap b k) = (roundTripArgs b \<and> roundTripKey k)"
| "roundTripArgs (ByExtendSlice b i) = (roundTripArgs b \<and> 0 \<le> i \<and> i < 2 ^ 63)"
| "roundTripArgs (ByConcat a b) = (roundTripArgs a \<and> roundTripArgs b)"

text \<open>
  What \<open>ParsePath\<close> returns, told from the parts of the input: a part \<open>overflows\<close> when
  it holds a bracketed run of digits denoting a number above \<open>2 ^ 63 - 1\<close>;
  \<open>componentOf\<close> is the component a part that is neither empty nor overflowing stands
  for. The first part that is empty or overflows decides the error.
\<close>

definition overflows :: "string \<Rightarrow> bool" where
  "overflows part =
     (case FindStringSubmatch part of Some d \<Rightarrow> 2 ^ 63 - 1 < decimal d | None \<Rightarrow> False)"

definition componentOf :: "string \<Rightarrow> pathComponent" where
  "componentOf part =
     (case FindStringSubmatch part of
        Some d \<Rightarrow> \<lparr>Type = pcSliceIdx, Key = [], Index = int (decimal d)\<rparr>
      | None \<Rightarrow> \<lparr>Type = pcMapKey, Key = part, Index = - 1\<rparr>)"

definition ParsePath_outcome :: "string \<Rightarrow> error + Path" where
  "ParsePath_outcome inp =
     (case find (\<lambda>part. part = [] \<or> overflows part) (Split inp CHR ''.'') of
        None \<Rightarrow> Inr (map componentOf (Split inp CHR ''.''))
      | Some part \<Rightarrow>
          (case FindStringSubmatch part of
             Some d \<Rightarrow> Inl (NumError d ErrRange)
           | None \<Rightarrow> Inl (InvalidPathString inp)))"

section \<open>Vocabulary for the statements about the engine\<close>

subsection \<open>The nodes a walk reaches\<close>

text \<open>
  The nodes the walker reaches from a node under a path, in the order it reaches them:
  the node itself, then what it reaches from each child. It is the walker without an
  observer; \<open>walkFull_total\<close> below relates the two.
\<close>

fun nodesFull :: "val \<Rightarrow> Path \<Rightarrow> walkObserverInfo list"
  and nodesMap :: "(string \<times> val) list \<Rightarrow> Path \<Rightarrow> walkObserverInfo list"
  and nodesSlice :: "val list \<Rightarrow> nat \<Rightarrow> Path \<Rightarrow> walkObserverInfo list"
where
  "nodesFull v p =
     \<lparr>woi_value = v, woi_path = p\<rparr> #
       (case v of
          VMap t m \<Rightarrow> nodesMap m p
        | VSlice t xs \<Rightarrow> nodesSlice xs 0 p
        | _ \<Rightarrow> [])"
| "nodesMap [] p = []"
| "nodesMap ((k, v) # m) p = nodesFull v (ExtendMap p k) @ nodesMap m p"
| "nodesSlice [] idx p = []"
| "nodesSlice (v # xs) idx p = nodesFull v (ExtendSlice p (int idx)) @ nodesSlice xs (Suc idx) p"

declare nodesFull.simps [simp del] walkFull.simps [simp del]

text \<open>
  The observer that writes down what it is shown, and the list it has written after a walk
  from the root: the nodes of a tree together with their paths.
\<close>

definition collect :: "walkObserverInfo list walkObserver" where
  "collect woi acc = (None, acc @ [woi])"

definition reached :: "val \<Rightarrow> walkObserverInfo list" where
  "reached v = snd (walk v False collect [])"

subsection \<open>Well-formed trees\<close>

text \<open>
  The keys of a Go map are distinct. A tree is well formed when this holds for every map
  in it that the walker enters.
\<close>

fun wellFormed :: "val \<Rightarrow> bool"
  and wellFormedMap :: "(string \<times> val) list \<Rightarrow> bool"
  and wellFormedSlice :: "val list \<Rightarrow> bool"
where
  "wellFormed v =
     (case v of
        VMap t m \<Rightarrow> distinct (map fst m) \<and> wellFormedMap m
      | VSlice t xs \<Rightarrow> wellFormedSlice xs
      | _ \<Rightarrow> True)"
| "wellFormedMap [] = True"
| "wellFormedMap ((k, v) # m) = (wellFormed v \<and> wellFormedMap m)"
| "wellFormedSlice [] = True"
| "wellFormedSlice (v # xs) = (wellFormed v \<and> wellFormedSlice xs)"

declare wellFormed.simps [simp del]

subsection \<open>Reading a report\<close>

text \<open>
  The entry of a report under a rendered path.
\<close>

definition lookupResult :: "Results \<Rightarrow> string \<Rightarrow> (Path \<times> ValueResult) option" where
  "lookupResult r k = map_of (Fields r) k"

text \<open>
  A report as a Go map filled by \<^verbatim>\<open>record\<close>: the keys are distinct, and every entry is
  stored under the rendering of its own path.
\<close>

definition wellKeyed :: "Results \<Rightarrow> bool" where
  "wellKeyed r =
     (distinct (map fst (Fields r))
      \<and> list_all (\<lambda>e. fst e = Path_String (fst (snd e))) (Fields r))"

text \<open>
  The paths a report holds, and coverage as the spec words it: a path is covered when it
  was recorded itself or when a recorded path is a descendant of it.
\<close>

definition recordedPaths :: "Results \<Rightarrow> Path list" where
  "recordedPaths r = map (\<lambda>e. fst (snd e)) (Fields r)"

definition coveredByCheck :: "Results \<Rightarrow> Path \<Rightarrow> bool" where
  "coveredByCheck lr p =
     (p \<in> set (recordedPaths lr) \<or> list_ex (\<lambda>q. strict_prefix p q) (recordedPaths lr))"

text \<open>
  A report holds the "unexpected key" failure under a rendered path.
\<close>

definition flaggedAt :: "Results \<Rightarrow> string \<Rightarrow> bool" where
  "flaggedAt r k = (map_option snd (lookupResult r k) = Some strictFailure)"


subsection \<open>The steps of \<open>Strict\<close> and of the compiling observer\<close>

text \<open>
  The test \<^verbatim>\<open>Strict\<close> makes after the exact lookup has failed: the string at the
  insertion point exists and starts with the rendered path.
\<close>

definition coveredByPrefix :: "string list \<Rightarrow> string \<Rightarrow> bool" where
  "coveredByPrefix validatedPaths k =
     (SearchStrings validatedPaths k < length validatedPaths
      \<and> HasPrefix (validatedPaths ! SearchStrings validatedPaths k) k)"

text \<open>
  One call of the observer of \<^verbatim>\<open>Strict\<close>, as a step on the report.
\<close>

definition flagStep :: "string list \<Rightarrow> Results \<Rightarrow> walkObserverInfo \<Rightarrow> Results" where
  "flagStep V r woi = snd (strictObserver V woi r)"

text \<open>
  The flat validator the compiling observer appends for a node, and the test it makes
  before appending: the node is not a non-empty collection.
\<close>

definition toFlat :: "walkObserverInfo \<Rightarrow> flatValidator" where
  "toFlat woi =
     \<lparr>fv_path = woi_path woi,
      fv_isDef = (case woi_value woi of VIsDef d \<Rightarrow> d | v \<Rightarrow> IsEqual v)\<rparr>"

definition tested :: "walkObserverInfo \<Rightarrow> bool" where
  "tested woi = (\<not> (isCollection (woi_value woi) \<and> 0 < Len (woi_value woi)))"

text \<open>
  The compiled schema of a top-level map or slice: the list the observer has built when
  the walk of \<^verbatim>\<open>compileMap\<close> or \<^verbatim>\<open>compileSlice\<close> ends. The validator returned holds it in
  its closure.
\<close>

fun compiledOf :: "val \<Rightarrow> CompiledSchema" where
  "compiledOf (VMap Named m) = snd (walkMap m True setupWalkObserver [])"
| "compiledOf (VSlice Named xs) = snd (walkSlice xs True setupWalkObserver [])"
| "compiledOf v = []"

subsection \<open>Example values\<close>

text \<open>
  A predicate library in which every external predicate passes, and the schemas, actual
  values, paths and outcomes used in the examples. \<open>isEq1\<close> is \<^verbatim>\<open>Is("eq", ...)\<close> with an
  equality check against the number \<open>1\<close>.
\<close>

abbreviation noPredicates :: predicates where
  "noPredicates \<equiv> (\<lambda>n p v e. \<lparr>Valid = True, Message = []\<rparr>)"

abbreviation passed :: ValueResult where "passed \<equiv> \<lparr>Valid = True, Message = ''deep equality''\<rparr>"


abbreviation keyA :: Path where "keyA \<equiv> ExtendMap [] ''a''"


abbreviation keyAB :: Path where "keyAB \<equiv> ExtendMap [] ''ab''"

abbreviation pathAB :: Path where "pathAB \<equiv> ExtendMap (ExtendMap [] ''a'') ''b''"

abbreviation pathAC :: Path where "pathAC \<equiv> ExtendMap (ExtendMap [] ''a'') ''c''"

abbreviation path0A :: Path where "path0A \<equiv> ExtendMap (ExtendSlice [] 0) ''a''"

abbreviation path0AB :: Path where "path0AB \<equiv> ExtendMap (ExtendSlice [] 0) ''ab''"

abbreviation isEq1 :: val where
  "isEq1 \<equiv> VIsDef (Is ''eq'' (IsEqualTo (VScalar (SInt 1))))"

abbreviation schemaAB :: val where "schemaAB \<equiv> VMap Named [(''ab'', VScalar (SInt 1))]"

abbreviation actualA_AB :: val where
  "actualA_AB \<equiv> VMap Unnamed [(''a'', VScalar (SInt 5)), (''ab'', VScalar (SInt 1))]"

abbreviation schemaX :: val where "schemaX \<equiv> VMap Named [(''x'', VScalar (SInt 1))]"

abbreviation actualX_CD :: val where
  "actualX_CD \<equiv> VMap Unnamed [(''x'', VScalar (SInt 1)), (''c'', VMap Unnamed [(''d'', VScalar (SInt 2))])]"

abbreviation schemaNested :: val where
  "schemaNested \<equiv> VMap Named [(''a'', VMap Named [(''b'', isEq1)])]"

abbreviation actualNested :: val where
  "actualNested \<equiv> VMap Unnamed [(''a'', VMap Unnamed [(''b'', VScalar (SInt 1)), (''c'', VScalar (SInt 2))])]"

abbreviation schemaSliceAB :: val where
  "schemaSliceAB \<equiv> VSlice Named [VMap Named [(''ab'', VScalar (SInt 1))]]"

abbreviation actualSliceA_AB :: val where
  "actualSliceA_AB \<equiv>
     VSlice Unnamed [VMap Unnamed [(''a'', VScalar (SInt 5)), (''ab'', VScalar (SInt 1))]]"





section \<open>Properties of the path model\<close>

text \<open>
  C10. Looking up the empty path in any value tree, nil and scalars included, returns the
  tree itself, found.
\<close>

theorem GetFrom_empty_path: "GetFrom [] m = Inr (m, True)"
  by simp

theorem GetFrom_empty_path_witness:
  "GetFrom [] VNil = Inr (VNil, True) \<and> GetFrom [] (VScalar (SInt 7)) = Inr (VScalar (SInt 7), True)"
  using GetFrom_empty_path [of VNil] GetFrom_empty_path [of "VScalar (SInt 7)"] by simp

text \<open>
  C3. The claim is that \<open>GetFrom\<close> reports (nil, false) and never panics when a component
  cannot be resolved, in particular when the current node is not the kind of container
  the component expects. The path built by \<open>ExtendMap\<close> with key \<open>a\<close>, looked up in the
  one-element slice holding the string \<open>x\<close>, panics instead: a map-key component has
  \<open>Index = - 1\<close>, the slice branch tests only the upper bound, and the read at index
  \<open>- 1\<close> is out of range.
\<close>

theorem GetFrom_map_key_on_slice_panics:
  "GetFrom (ExtendMap [] ''a'') (VSlice Unnamed [VScalar (SStr ''x'')]) = Inl (IndexOutOfRange (- 1) 1)"
  by (simp add: ExtendMap_def Extend_def)


subsection \<open>Digits, the index pattern and \<open>Atoi\<close>\<close>

lemma digit_cases:
  "d < (10::nat) \<Longrightarrow> d \<in> {0, 1, 2, 3, 4, 5, 6, 7, 8, 9}"
  by auto

lemma isDigit_digitChar: "d < 10 \<Longrightarrow> isDigit (digitChar d)"
  by (drule digit_cases) (auto simp: isDigit_def digitChar_def)

lemma digitVal_digitChar: "d < 10 \<Longrightarrow> digitVal (digitChar d) = d"
  by (drule digit_cases) (auto simp: digitVal_def digitChar_def)

lemma showNat_digits: "list_all isDigit (showNat n)"
proof (induction n rule: showNat.induct)
  case (1 n)
  show ?case
  proof (cases "n < 10")
    case True
    then show ?thesis by (subst showNat.simps) (simp add: isDigit_digitChar)
  next
    case False
    with 1 show ?thesis by (subst showNat.simps) (simp add: isDigit_digitChar)
  qed
qed

lemma showNat_nonempty: "showNat n \<noteq> []"
  by (subst showNat.simps) simp

lemma decimal_snoc: "decimal (s @ [c]) = 10 * decimal s + digitVal c"
  by (simp add: decimal_def)

lemma decimal_showNat: "decimal (showNat n) = n"
proof (induction n rule: showNat.induct)
  case (1 n)
  show ?case
  proof (cases "n < 10")
    case True
    then show ?thesis by (subst showNat.simps) (simp add: decimal_def digitVal_digitChar)
  next
    case False
    with 1 show ?thesis
      by (subst showNat.simps) (simp add: decimal_snoc digitVal_digitChar)
  qed
qed

lemma isDigit_not_sign: "isDigit c \<Longrightarrow> c \<noteq> CHR ''-'' \<and> c \<noteq> CHR ''+'' \<and> c \<noteq> CHR '']'' \<and> c \<noteq> CHR ''.'' \<and> c \<noteq> CHR ''[''"
  by (auto simp: isDigit_def)

lemma Atoi_digits:
  assumes "d \<noteq> []" "list_all isDigit d"
  shows "Atoi d = (if decimal d \<le> 2 ^ 63 - 1 then Inr (int (decimal d)) else Inl (NumError d ErrRange))"
proof -
  from assms have "isDigit (hd d)" by (cases d) auto
  then have "hd d \<noteq> CHR ''-''" "hd d \<noteq> CHR ''+''" using isDigit_not_sign by blast+
  with assms show ?thesis by (simp add: Atoi_def)
qed

lemma arrMatchHere_Some: "arrMatchHere s = Some d \<Longrightarrow> d \<noteq> [] \<and> list_all isDigit d"
  by (auto simp: arrMatchHere_def list_all_iff split: list.splits if_splits dest: set_takeWhileD)

lemma FindStringSubmatch_Some: "FindStringSubmatch s = Some d \<Longrightarrow> d \<noteq> [] \<and> list_all isDigit d"
  by (induction s) (auto split: option.splits dest: arrMatchHere_Some)

lemma takeWhile_digits_bracket:
  "list_all isDigit ds \<Longrightarrow> takeWhile isDigit (ds @ CHR '']'' # r) = ds"
  by (induction ds) (simp_all add: isDigit_def)

lemma dropWhile_digits_bracket:
  "list_all isDigit ds \<Longrightarrow> dropWhile isDigit (ds @ CHR '']'' # r) = CHR '']'' # r"
  by (induction ds) (simp_all add: isDigit_def)

lemma arrMatchHere_index:
  "list_all isDigit ds \<Longrightarrow> ds \<noteq> [] \<Longrightarrow> arrMatchHere (CHR ''['' # ds @ CHR '']'' # r) = Some ds"
  unfolding arrMatchHere_def
  by (simp only: list.case takeWhile_digits_bracket dropWhile_digits_bracket) simp

lemma FindStringSubmatch_index:
  "FindStringSubmatch (CHR ''['' # showNat n @ '']'') = Some (showNat n)"
  using arrMatchHere_index[OF showNat_digits showNat_nonempty, of n "[]"] by simp

subsection \<open>Splitting a joined list; parsing a rendered path\<close>

lemma Split_nonempty: "Split s c \<noteq> []"
  by (induction s) (auto split: list.splits)

lemma Split_nosep: "c \<notin> set x \<Longrightarrow> Split x c = [x]"
  by (induction x) auto

lemma Split_append_sep: "c \<notin> set x \<Longrightarrow> Split (x @ c # rest) c = x # Split rest c"
  by (induction x) auto

lemma Split_Join:
  "ps \<noteq> [] \<Longrightarrow> \<forall>p\<in>set ps. c \<notin> set p \<Longrightarrow> Split (Join ps [c]) c = ps"
proof (induction ps "[c]" rule: Join.induct)
  case 1
  then show ?case by simp
next
  case (2 x)
  then show ?case by (simp add: Split_nosep)
next
  case (3 x y ys)
  then show ?case by (simp add: Split_append_sep)
qed

lemma showNat_no_dot: "CHR ''.'' \<notin> set (showNat n)"
  using showNat_digits[of n] isDigit_not_sign by (auto simp: list_all_iff)

lemma roundTripComponent_no_dot:
  "roundTripComponent pc \<Longrightarrow> CHR ''.'' \<notin> set (pathComponent_String pc)"
  by (auto simp: roundTripComponent_def pathComponent_String_def roundTripKey_def showInt_def
      showNat_no_dot split: pathComponentType.splits)

lemma Atoi_showNat: "n < 2 ^ 63 \<Longrightarrow> Atoi (showNat n) = Inr (int n)"
  using Atoi_digits[OF showNat_nonempty showNat_digits, of n] by (simp add: decimal_showNat)

lemma parseParts_rendered:
  "list_all roundTripComponent P \<Longrightarrow> parseParts inp (map pathComponent_String P) = Inr P"
proof (induction P)
  case Nil
  then show ?case by simp
next
  case (Cons pc P)
  then have rt: "roundTripComponent pc" and ih: "parseParts inp (map pathComponent_String P) = Inr P"
    by simp_all
  show ?case
  proof (cases "Type pc")
    case pcMapKey
    with rt have k: "Index pc = - 1" "roundTripKey (Key pc)" by (simp_all add: roundTripComponent_def)
    have s: "pathComponent_String pc = Key pc"
      using pcMapKey by (simp add: pathComponent_String_def)
    have "pc = \<lparr>Type = pcMapKey, Key = Key pc, Index = - 1\<rparr>" using pcMapKey k by simp
    then show ?thesis using k ih
      by (simp add: s roundTripKey_def)
  next
    case pcSliceIdx
    with rt have k: "Key pc = []" "0 \<le> Index pc" "Index pc < 2 ^ 63"
      by (simp_all add: roundTripComponent_def)
    have n: "nat (Index pc) < 2 ^ 63" using k by (simp add: nat_less_iff)
    have s: "pathComponent_String pc = CHR ''['' # showNat (nat (Index pc)) @ '']''"
      using pcSliceIdx k by (simp add: pathComponent_String_def showInt_def)
    have "pc = \<lparr>Type = pcSliceIdx, Key = [], Index = Index pc\<rparr>" using pcSliceIdx k by simp
    then show ?thesis using ih k
      by (simp add: s FindStringSubmatch_index Atoi_showNat[OF n] del: FindStringSubmatch.simps)
  next
    case pcScalar
    with rt show ?thesis by (simp add: roundTripComponent_def)
  qed
qed

lemma ParsePath_rendered:
  assumes "P \<noteq> []" "list_all roundTripComponent P"
  shows "ParsePath (Path_String P) = Inr P"
proof -
  have "Split (Join (map pathComponent_String P) ''.'') CHR ''.'' = map pathComponent_String P"
    using assms by (intro Split_Join) (auto simp: list_all_iff roundTripComponent_no_dot)
  then show ?thesis using assms by (simp add: ParsePath_def Path_String_def parseParts_rendered)
qed

lemma roundTripArgs_components: "roundTripArgs b \<Longrightarrow> list_all roundTripComponent (pathOf b)"
  by (induction b)
     (simp_all add: ExtendMap_def ExtendSlice_def Extend_def Concat_def roundTripComponent_def)

text \<open>
  C2, as stated: every path built from the empty path by \<open>ExtendMap\<close>, \<open>ExtendSlice\<close> and
  \<open>Concat\<close> is parsed back from its rendering. It fails at the empty path itself, which
  renders as the empty string and is rejected by the parser, and at the one-key path
  with key \<open>a.b\<close>, which is parsed as two keys.
\<close>

theorem ParsePath_roundtrip_counterexample:
  "ParsePath (Path_String (pathOf EmptyPath)) = Inl (InvalidPathString [])
   \<and> ParsePath (Path_String (pathOf (ByExtendMap EmptyPath ''a.b'')))
       = Inr (ExtendMap (ExtendMap [] ''a'') ''b'')
   \<and> ExtendMap (ExtendMap [] ''a'') ''b'' \<noteq> pathOf (ByExtendMap EmptyPath ''a.b'')"
  by (simp add: Path_String_def ParsePath_def ExtendMap_def Extend_def pathComponent_String_def
      arrMatchHere_def)

text \<open>
  C2, amended: every non-empty path built from the empty path by \<open>ExtendMap\<close> with keys
  that are not empty, hold no dot and hold no bracketed run of digits, by \<open>ExtendSlice\<close>
  with indices from \<open>0\<close> to \<open>2 ^ 63 - 1\<close>, and by \<open>Concat\<close>, is parsed back from its
  rendering, with no error.
\<close>

theorem ParsePath_roundtrip:
  "roundTripArgs b \<Longrightarrow> pathOf b \<noteq> [] \<Longrightarrow> ParsePath (Path_String (pathOf b)) = Inr (pathOf b)"
  by (rule ParsePath_rendered) (simp_all add: roundTripArgs_components)

theorem ParsePath_roundtrip_witness:
  "roundTripArgs (ByConcat (ByExtendMap EmptyPath ''items'') (ByExtendMap (ByExtendSlice EmptyPath 10) ''name''))
   \<and> pathOf (ByConcat (ByExtendMap EmptyPath ''items'') (ByExtendMap (ByExtendSlice EmptyPath 10) ''name'')) \<noteq> []
   \<and> Path_String (Concat (ExtendMap [] ''items'') (ExtendMap (ExtendSlice [] 10) ''name'')) = ''items.[10].name''
   \<and> ParsePath ''items.[10].name''
       = Inr (Concat (ExtendMap [] ''items'') (ExtendMap (ExtendSlice [] 10) ''name''))"
proof -
  let ?b = "ByConcat (ByExtendMap EmptyPath ''items'') (ByExtendMap (ByExtendSlice EmptyPath 10) ''name'')"
  have args: "roundTripArgs ?b"
    by (simp add: roundTripKey_def arrMatchHere_def)
  have ne: "pathOf ?b \<noteq> []"
    by (simp add: Concat_def ExtendMap_def Extend_def)
  have str: "Path_String (Concat (ExtendMap [] ''items'') (ExtendMap (ExtendSlice [] 10) ''name''))
      = ''items.[10].name''"
    by (simp add: Concat_def ExtendMap_def ExtendSlice_def Extend_def Path_String_def
        pathComponent_String_def showInt_def showNat.simps digitChar_def)
  from ParsePath_roundtrip [OF args ne] args ne str show ?thesis
    by simp
qed

subsection \<open>The outcome of parsing\<close>

lemma parseParts_outcome:
  "parseParts inp parts =
     (case find (\<lambda>part. part = [] \<or> overflows part) parts of
        None \<Rightarrow> Inr (map componentOf parts)
      | Some part \<Rightarrow>
          (case FindStringSubmatch part of
             Some d \<Rightarrow> Inl (NumError d ErrRange)
           | None \<Rightarrow> Inl (InvalidPathString inp)))"
proof (induction parts)
  case Nil
  then show ?case by simp
next
  case (Cons part parts)
  show ?case
  proof (cases "FindStringSubmatch part")
    case None
    then show ?thesis using Cons
      by (cases "part = []") (simp_all add: overflows_def componentOf_def split: option.splits)
  next
    case (Some d)
    then have d: "d \<noteq> []" "list_all isDigit d" using FindStringSubmatch_Some by blast+
    have ne: "part \<noteq> []" using Some by auto
    show ?thesis
    proof (cases "decimal d \<le> 2 ^ 63 - 1")
      case True
      then show ?thesis using Some Cons ne
        by (simp add: Atoi_digits[OF d] overflows_def componentOf_def split: option.splits)
    next
      case False
      then show ?thesis using Some ne
        by (simp add: Atoi_digits[OF d] overflows_def)
    qed
  qed
qed

text \<open>
  C4, as stated: an \<^verbatim>\<open>InvalidPathString\<close> error for every input with an empty segment that
  is not a root or with an index token that cannot be parsed, and a path with no error
  for every other input. The empty string, which is what the empty (root) path renders
  to, is rejected; an index whose digits denote a number above \<open>2 ^ 63 - 1\<close> gives the
  number error of \<^verbatim>\<open>strconv.Atoi\<close> and not \<^verbatim>\<open>InvalidPathString\<close>; and a bracketed token
  that is not a run of digits gives no error at all: it is taken as a map key.
\<close>

theorem ParsePath_errors_counterexample:
  "ParsePath [] = Inl (InvalidPathString [])
   \<and> ParsePath ''[9223372036854775808]'' = Inl (NumError ''9223372036854775808'' ErrRange)
   \<and> ParsePath ''[x]'' = Inr [\<lparr>Type = pcMapKey, Key = ''[x]'', Index = - 1\<rparr>]"
proof -
  have d: "decimal ''9223372036854775808'' = 9223372036854775808"
    by (simp add: decimal_def digitVal_def)
  show ?thesis
    by (simp add: ParsePath_def arrMatchHere_def isDigit_def Atoi_def d)
qed

text \<open>
  C4, amended: \<open>ParsePath\<close> looks at the dot-separated parts in order and stops at the
  first part that is empty or holds an index above \<open>2 ^ 63 - 1\<close>. If that part is empty
  (the empty input has one empty part) the result is \<^verbatim>\<open>InvalidPathString\<close> of the input;
  if it holds such an index the result is the range error of \<^verbatim>\<open>strconv.Atoi\<close>. For every
  other input the result is a path with no error, where a part holding a bracketed run
  of digits is a slice index and any other part, bracketed or not, is a map key.
\<close>

theorem ParsePath_errors: "ParsePath inp = ParsePath_outcome inp"
  by (simp add: ParsePath_def ParsePath_outcome_def parseParts_outcome)

theorem ParsePath_errors_witness:
  "ParsePath ''a..b'' = Inl (InvalidPathString ''a..b'')
   \<and> ParsePath ''a.[3].b'' = Inr [\<lparr>Type = pcMapKey, Key = ''a'', Index = - 1\<rparr>,
        \<lparr>Type = pcSliceIdx, Key = [], Index = 3\<rparr>, \<lparr>Type = pcMapKey, Key = ''b'', Index = - 1\<rparr>]"
  using ParsePath_errors [of "''a..b''"] ParsePath_errors [of "''a.[3].b''"]
  by (simp add: ParsePath_outcome_def overflows_def componentOf_def arrMatchHere_def isDigit_def
      decimal_def digitVal_def)

section \<open>Properties of the walker\<close>

text \<open>
  The definitions unfolded to run the engine on a concrete input.
\<close>

lemmas eval_defs = compileMap_def compileSlice_def walkMap_def walkSlice_def walk_def walkFull.simps
  setupWalkObserver_def CompiledSchema_Check_def IsDef_Check_def IsEqual_def SimpleResult_def
  Results_record_def NewResults_def merge_def EachResult_def Path_String_def
  pathComponent_String_def ExtendMap_def ExtendSlice_def Extend_def Let_def
  showInt_def showNat.simps digitChar_def Is_def

lemmas strict_defs = Strict_def strictObserver_def SearchStrings_def Search_def searchLoop.simps
  HasPrefix_def StrictFailureResult_def

text \<open>
  With an observer that never returns an error the walk returns no error, and its final
  state is the observer folded over the nodes reached.
\<close>

lemma walkFull_total:
  assumes ok: "\<And>woi s. fst (wo woi s) = None"
  shows "walkFull v p wo s = (None, foldl (\<lambda>s woi. snd (wo woi s)) s (nodesFull v p))"
    and "walkFullMap m p wo s = (None, foldl (\<lambda>s woi. snd (wo woi s)) s (nodesMap m p))"
    and "walkFullSlice xs idx p wo s = (None, foldl (\<lambda>s woi. snd (wo woi s)) s (nodesSlice xs idx p))"
proof (induction v p and m p and xs idx p arbitrary: s and s and s
    rule: nodesFull_nodesMap_nodesSlice.induct)
  case (1 v p)
  define s' where "s' = snd (wo \<lparr>woi_value = v, woi_path = p\<rparr> s)"
  have s': "wo \<lparr>woi_value = v, woi_path = p\<rparr> s = (None, s')"
    using ok[of "\<lparr>woi_value = v, woi_path = p\<rparr>" s] by (simp add: prod_eq_iff s'_def)
  show ?case
    using 1 s'
    by (cases v) (simp_all add: walkFull.simps nodesFull.simps)
next
  case (2 p)
  then show ?case by simp
next
  case (3 k v m p)
  then show ?case by simp
next
  case (4 idx p)
  then show ?case by simp
next
  case (5 v xs idx p)
  then show ?case by simp
qed

lemma setupWalkObserver_ok: "fst (setupWalkObserver woi s) = None"
  by (simp add: setupWalkObserver_def Let_def)

lemma collect_ok: "fst (collect woi s) = None"
  by (simp add: collect_def)

lemma strictObserver_ok: "fst (strictObserver vp woi s) = None"
  by (simp add: strictObserver_def Let_def)

lemma foldl_collect: "foldl (\<lambda>s woi. snd (collect woi s)) acc ns = acc @ ns"
  by (induction ns arbitrary: acc) (simp_all add: collect_def)

lemma reached_eq: "reached v = nodesFull v []"
  by (simp add: reached_def walk_def walkFull_total(1)[OF collect_ok] foldl_collect)

section \<open>Properties of \<open>Compose\<close>\<close>





section \<open>Properties of \<open>Strict\<close>\<close>

subsection \<open>The prefix test on a sorted list\<close>

lemma length_takeWhile_eq:
  assumes "i \<le> length a" and "\<forall>k<i. P (a ! k)" and "i < length a \<longrightarrow> \<not> P (a ! i)"
  shows "length (takeWhile P a) = i"
proof -
  have "takeWhile P a = take i a"
    using assms by (intro takeWhile_eq_take_P_nth) auto
  then show ?thesis using assms(1) by simp
qed

text \<open>
  On a sorted list the binary search returns the number of strings below \<open>x\<close>, which is
  the index of the first string not below \<open>x\<close>.
\<close>

lemma searchLoop_sorted:
  assumes "sorted a"
  shows "i \<le> j \<Longrightarrow> j \<le> length a \<Longrightarrow> \<forall>k<i. a ! k < x
     \<Longrightarrow> \<forall>k. j \<le> k \<and> k < length a \<longrightarrow> x \<le> a ! k
     \<Longrightarrow> searchLoop (\<lambda>i. x \<le> a ! i) i j = length (takeWhile (\<lambda>y. y < x) a)"
proof (induction "\<lambda>i. x \<le> a ! i" i j rule: searchLoop.induct)
  case (1 i j)
  show ?case
  proof (cases "i < j")
    case False
    with "1.prems" have ij: "i = j" by simp
    have "length (takeWhile (\<lambda>y. y < x) a) = i"
      using "1.prems" ij by (intro length_takeWhile_eq) (auto simp: not_less)
    then show ?thesis using False by (simp add: searchLoop.simps[of _ i j])
  next
    case True
    define h where "h = (i + j) div 2"
    have h: "i \<le> h" "h < j" using True by (simp_all add: h_def)
    show ?thesis
    proof (cases "x \<le> a ! h")
      case le: True
      have "\<forall>k. h \<le> k \<and> k < length a \<longrightarrow> x \<le> a ! k"
      proof (intro allI impI)
        fix k assume k: "h \<le> k \<and> k < length a"
        then have "a ! h \<le> a ! k" using assms by (simp add: sorted_nth_mono)
        with le show "x \<le> a ! k" by simp
      qed
      with "1.hyps"(2)[OF True h_def] le "1.prems" h
      have "searchLoop (\<lambda>i. x \<le> a ! i) i h = length (takeWhile (\<lambda>y. y < x) a)" by simp
      then show ?thesis using True le by (simp add: searchLoop.simps[of _ i j] h_def Let_def)
    next
      case nle: False
      have "\<forall>k<h + 1. a ! k < x"
      proof (intro allI impI)
        fix k assume k: "k < h + 1"
        then have "a ! k \<le> a ! h" using assms h "1.prems"(2) by (simp add: sorted_nth_mono)
        with nle show "a ! k < x" by simp
      qed
      with "1.hyps"(1)[OF True h_def] nle "1.prems" h
      have "searchLoop (\<lambda>i. x \<le> a ! i) (h + 1) j = length (takeWhile (\<lambda>y. y < x) a)" by simp
      then show ?thesis using True nle by (simp add: searchLoop.simps[of _ i j] h_def Let_def)
    qed
  qed
qed

lemma SearchStrings_sorted:
  "sorted a \<Longrightarrow> SearchStrings a x = length (takeWhile (\<lambda>y. y < x) a)"
  unfolding SearchStrings_def Search_def by (rule searchLoop_sorted) auto

text \<open>
  In the lexicographic order, every list between \<open>k\<close> and an extension of \<open>k\<close> starts
  with \<open>k\<close>. Hence on a sorted list the string at the insertion point of \<open>k\<close> starts with
  \<open>k\<close> exactly when some string of the list does.
\<close>

lemma prefix_between:
  fixes k h :: "'a::linorder list"
  shows "k \<le> h \<Longrightarrow> h \<le> k @ t \<Longrightarrow> prefix k h"
proof (induction k arbitrary: h)
  case Nil
  then show ?case by simp
next
  case (Cons a k)
  then obtain b h' where h: "h = b # h'" by (cases h) auto
  from Cons.prems have "a = b" "k \<le> h'" "h' \<le> k @ t"
    by (auto simp: h not_less_iff_gr_or_eq)
  with Cons.IH show ?case by (simp add: h)
qed

lemma prefix_le:
  fixes k :: "'a::linorder list"
  shows "prefix k s \<Longrightarrow> k \<le> s"
  by (induction k arbitrary: s) (auto elim!: prefixE)

lemma coveredByPrefix_iff:
  assumes "sorted V"
  shows "coveredByPrefix V k \<longleftrightarrow> (\<exists>s\<in>set V. prefix k s)"
proof
  assume "coveredByPrefix V k"
  then show "\<exists>s\<in>set V. prefix k s"
    by (auto simp: coveredByPrefix_def HasPrefix_def)
next
  assume "\<exists>s\<in>set V. prefix k s"
  then obtain s where s: "s \<in> set V" "prefix k s" by blast
  define i where "i = length (takeWhile (\<lambda>y. y < k) V)"
  have ks: "k \<le> s" using s(2) by (rule prefix_le)
  have "s \<notin> set (takeWhile (\<lambda>y. y < k) V)" using ks by (auto dest: set_takeWhileD)
  moreover have "set V = set (takeWhile (\<lambda>y. y < k) V) \<union> set (dropWhile (\<lambda>y. y < k) V)"
    using set_append[of "takeWhile (\<lambda>y. y < k) V" "dropWhile (\<lambda>y. y < k) V"] by simp
  ultimately have "s \<in> set (dropWhile (\<lambda>y. y < k) V)" using s(1) by blast
  then have "s \<in> set (drop i V)" by (simp add: dropWhile_eq_drop i_def)
  then obtain n where n: "n < length V - i" "s = V ! (i + n)"
    by (auto simp: in_set_conv_nth)
  have len: "i < length V" using n by simp
  have "\<not> V ! i < k" unfolding i_def using len nth_length_takeWhile i_def by blast
  then have kh: "k \<le> V ! i" by simp
  have hs: "V ! i \<le> s" using assms n by (simp add: sorted_nth_mono)
  obtain t where "s = k @ t" using s(2) by (auto elim: prefixE)
  with kh hs have "prefix k (V ! i)" using prefix_between by blast
  then show "coveredByPrefix V k"
    using len by (simp add: coveredByPrefix_def HasPrefix_def SearchStrings_sorted[OF assms] i_def)
qed

subsection \<open>The report after the walk\<close>

lemma lookupResult_record:
  "lookupResult (Results_record r p vr) = (lookupResult r)(Path_String p \<mapsto> (p, vr))"
  by (rule ext) (simp add: lookupResult_def Results_record_def update_conv')

lemma merge_StrictFailureResult:
  "merge r (StrictFailureResult p) = Results_record r p strictFailure"
  by (simp add: merge_def StrictFailureResult_def EachResult_def Results_record_def NewResults_def)

lemma lookupResult_flagStep:
  "lookupResult (flagStep V r woi) =
     (if lookupResult r (Path_String (woi_path woi)) = None
         \<and> \<not> coveredByPrefix V (Path_String (woi_path woi))
      then (lookupResult r)(Path_String (woi_path woi) \<mapsto> (woi_path woi, strictFailure))
      else lookupResult r)"
  by (auto simp: flagStep_def strictObserver_def Let_def coveredByPrefix_def
      merge_StrictFailureResult lookupResult_record lookupResult_def)

text \<open>
  The report after the observer of \<^verbatim>\<open>Strict\<close> has seen a list of nodes: an entry that was
  there stays; a rendered path with no entry gets the failure of the first node rendering
  to it, unless the prefix test covers it.
\<close>

lemma lookupResult_flagged:
  "lookupResult (foldl (flagStep V) r ns) k =
     (case lookupResult r k of
        Some e \<Rightarrow> Some e
      | None \<Rightarrow>
          if coveredByPrefix V k then None
          else (case find (\<lambda>woi. Path_String (woi_path woi) = k) ns of
                  None \<Rightarrow> None
                | Some woi \<Rightarrow> Some (woi_path woi, strictFailure)))"
proof (induction ns arbitrary: r)
  case Nil
  then show ?case by (cases "lookupResult r k") auto
next
  case (Cons woi ns)
  show ?case
    by (cases "lookupResult r k") (auto simp: Cons.IH lookupResult_flagStep)
qed

lemma Strict_eq:
  "laxValidator actual = Inr lr \<Longrightarrow>
   Strict laxValidator actual
     = Inr (foldl (flagStep (sort (map fst (Fields lr)))) lr (nodesFull actual []))"
  by (simp add: Strict_def walk_def walkFull_total(1)[OF strictObserver_ok] flagStep_def [abs_def])

lemma Join_append:
  "xs \<noteq> [] \<Longrightarrow> ys \<noteq> [] \<Longrightarrow> Join (xs @ ys) sep = Join xs sep @ sep @ Join ys sep"
proof (induction xs sep rule: Join.induct)
  case (1 sep)
  then show ?case by simp
next
  case (2 x sep)
  then show ?case by (cases ys) simp_all
next
  case (3 x y ys sep)
  then show ?case by simp
qed

text \<open>
  The rendering of a path starts with the rendering of each of its prefixes.
\<close>

lemma Path_String_prefix: "prefix p q \<Longrightarrow> prefix (Path_String p) (Path_String q)"
proof -
  assume "prefix p q"
  then obtain r where q: "q = p @ r" by (auto elim: prefixE)
  show ?thesis
  proof (cases "p = [] \<or> r = []")
    case True
    then show ?thesis by (auto simp: q Path_String_def)
  next
    case False
    then show ?thesis by (simp add: q Path_String_def Join_append)
  qed
qed

lemma wellKeyed_key:
  "wellKeyed lr \<Longrightarrow> q \<in> set (recordedPaths lr) \<Longrightarrow> Path_String q \<in> fst ` set (Fields lr)"
  by (force simp: wellKeyed_def recordedPaths_def list_all_iff)

lemma coveredByCheck_prefix:
  assumes "wellKeyed lr" "coveredByCheck lr p"
  shows "\<exists>s\<in>fst ` set (Fields lr). prefix (Path_String p) s"
proof -
  from assms(2) obtain q where q: "q \<in> set (recordedPaths lr)" "prefix p q"
    by (auto simp: coveredByCheck_def list_ex_iff strict_prefix_def)
  then show ?thesis using wellKeyed_key[OF assms(1) q(1)] Path_String_prefix by blast
qed

lemma lookupResult_None_iff: "lookupResult r k = None \<longleftrightarrow> k \<notin> fst ` set (Fields r)"
  by (simp add: lookupResult_def map_of_eq_None_iff)

lemma flagged_uncovered:
  assumes "woi \<in> set ns"
    and "\<forall>s\<in>fst ` set (Fields lr). \<not> prefix (Path_String (woi_path woi)) s"
  shows "flaggedAt (foldl (flagStep (sort (map fst (Fields lr)))) lr ns) (Path_String (woi_path woi))"
proof -
  let ?V = "sort (map fst (Fields lr))" and ?k = "Path_String (woi_path woi)"
  have nc: "\<not> coveredByPrefix ?V ?k" using assms(2) coveredByPrefix_iff[of ?V ?k] by simp
  have "?k \<notin> fst ` set (Fields lr)" using assms(2) by auto
  then have none: "lookupResult lr ?k = None" by (simp add: lookupResult_None_iff)
  obtain w' where "find (\<lambda>w. Path_String (woi_path w) = ?k) ns = Some w'"
    using assms(1) by (cases "find (\<lambda>w. Path_String (woi_path w) = ?k) ns") (auto simp: find_None_iff)
  then show ?thesis using nc none by (simp add: flaggedAt_def lookupResult_flagged)
qed

lemma covered_unchanged:
  assumes "\<exists>s\<in>fst ` set (Fields lr). prefix k s"
  shows "lookupResult (foldl (flagStep (sort (map fst (Fields lr)))) lr ns) k = lookupResult lr k"
proof -
  have "coveredByPrefix (sort (map fst (Fields lr))) k"
    using assms coveredByPrefix_iff[of "sort (map fst (Fields lr))" k] by simp
  then show ?thesis by (simp add: lookupResult_flagged split: option.splits)
qed

lemma changed_flagged:
  assumes ne: "lookupResult (foldl (flagStep (sort (map fst (Fields lr)))) lr ns) k \<noteq> lookupResult lr k"
  shows "lookupResult lr k = None
     \<and> (\<exists>woi\<in>set ns. Path_String (woi_path woi) = k
           \<and> lookupResult (foldl (flagStep (sort (map fst (Fields lr)))) lr ns) k
               = Some (woi_path woi, strictFailure))"
proof -
  let ?V = "sort (map fst (Fields lr))"
  from ne have none: "lookupResult lr k = None" and nc: "\<not> coveredByPrefix ?V k"
    by (auto simp: lookupResult_flagged split: if_splits option.splits)
  from ne none nc obtain w where
    w: "find (\<lambda>w. Path_String (woi_path w) = k) ns = Some w"
    by (cases "find (\<lambda>w. Path_String (woi_path w) = k) ns")
       (auto simp: lookupResult_flagged split: option.splits)
  then have "w \<in> set ns" "Path_String (woi_path w) = k"
    by (auto simp: find_Some_iff in_set_conv_nth)
  moreover have "lookupResult (foldl (flagStep ?V) lr ns) k = Some (woi_path w, strictFailure)"
    using w none nc by (simp add: lookupResult_flagged)
  ultimately show ?thesis using none by blast
qed

text \<open>
  C1, as stated: \<open>Strict\<close> flags a leaf path of the actual tree exactly when the path was not
  recorded and no recorded path is a descendant of it, and flags no other path. Against
  the schema with the one key \<open>ab\<close>, the actual map with keys \<open>a\<close> and \<open>ab\<close> has the leaf
  \<open>a\<close>, which is not covered and yet is not flagged: the recorded string \<open>ab\<close> starts with
  the string \<open>a\<close>. And against the schema with the one key \<open>x\<close>, the actual map that also
  holds the non-empty map \<open>c\<close> is flagged at \<open>c\<close>, which is not a leaf, as well as at
  \<open>c.d\<close>.
\<close>

theorem Strict_flags_counterexample:
  "the (fst (Compile noPredicates schemaAB)) actualA_AB = Inr \<lparr>Fields = [(''ab'', keyAB, passed)]\<rparr>
   \<and> \<lparr>woi_value = VScalar (SInt 5), woi_path = keyA\<rparr> \<in> set (reached actualA_AB)
   \<and> \<not> coveredByCheck \<lparr>Fields = [(''ab'', keyAB, passed)]\<rparr> keyA
   \<and> Strict (the (fst (Compile noPredicates schemaAB))) actualA_AB
       = Inr \<lparr>Fields = [(''ab'', keyAB, passed)]\<rparr>
   \<and> \<lparr>woi_value = VMap Unnamed [(''d'', VScalar (SInt 2))], woi_path = ExtendMap [] ''c''\<rparr>
       \<in> set (reached actualX_CD)
   \<and> Strict (the (fst (Compile noPredicates schemaX))) actualX_CD
       = Inr \<lparr>Fields = [(''x'', ExtendMap [] ''x'', passed),
           (''c'', ExtendMap [] ''c'', strictFailure),
           (''c.d'', ExtendMap (ExtendMap [] ''c'') ''d'', strictFailure)]\<rparr>"
proof -
  have a: "the (fst (Compile noPredicates schemaAB)) actualA_AB = Inr \<lparr>Fields = [(''ab'', keyAB, passed)]\<rparr>"
    by (simp add: eval_defs)
  have b: "\<lparr>woi_value = VScalar (SInt 5), woi_path = keyA\<rparr> \<in> set (reached actualA_AB)"
    "\<not> coveredByCheck \<lparr>Fields = [(''ab'', keyAB, passed)]\<rparr> keyA"
    by (simp_all add: reached_def collect_def coveredByCheck_def recordedPaths_def eval_defs)
  have c: "Strict (the (fst (Compile noPredicates schemaAB))) actualA_AB
       = Inr \<lparr>Fields = [(''ab'', keyAB, passed)]\<rparr>"
    by (simp add: eval_defs strict_defs)
  have d: "\<lparr>woi_value = VMap Unnamed [(''d'', VScalar (SInt 2))], woi_path = ExtendMap [] ''c''\<rparr>
       \<in> set (reached actualX_CD)"
    by (simp add: reached_def collect_def eval_defs)
  have e: "Strict (the (fst (Compile noPredicates schemaX))) actualX_CD
       = Inr \<lparr>Fields = [(''x'', ExtendMap [] ''x'', passed),
           (''c'', ExtendMap [] ''c'', strictFailure),
           (''c.d'', ExtendMap (ExtendMap [] ''c'') ''d'', strictFailure)]\<rparr>"
    by (simp add: eval_defs strict_defs)
  from a b c d e show ?thesis by blast
qed

text \<open>
  C1, amended: let the lax validator return a report for the actual tree. Then \<open>Strict\<close>
  returns a report in which
  \<^item> every node the walk of the actual tree reaches, leaf or container, whose rendered path
    is not the start of any recorded path string holds the "unexpected key" failure;
  \<^item> every reached node whose path was recorded, or has a recorded descendant, keeps what
    the lax report has under its rendered path (nothing, for an unrecorded container);
  \<^item> every entry that differs from the lax report is an "unexpected key" failure, stored
    under the rendering of a reached node's path where the lax report had nothing.
  Nothing is said of a reached node that is not covered but whose rendered path is the
  start of a recorded path string.
\<close>

theorem Strict_flags:
  assumes lax: "laxValidator actual = Inr lr" and wk: "wellKeyed lr"
  shows "\<exists>r. Strict laxValidator actual = Inr r
     \<and> (\<forall>woi\<in>set (reached actual).
           ((\<forall>s\<in>fst ` set (Fields lr). \<not> prefix (Path_String (woi_path woi)) s)
              \<longrightarrow> flaggedAt r (Path_String (woi_path woi)))
         \<and> (coveredByCheck lr (woi_path woi)
              \<longrightarrow> lookupResult r (Path_String (woi_path woi))
                    = lookupResult lr (Path_String (woi_path woi))))
     \<and> (\<forall>k. lookupResult r k \<noteq> lookupResult lr k
           \<longrightarrow> lookupResult lr k = None
               \<and> (\<exists>woi\<in>set (reached actual).
                     Path_String (woi_path woi) = k
                     \<and> lookupResult r k = Some (woi_path woi, strictFailure)))"
proof -
  let ?r = "foldl (flagStep (sort (map fst (Fields lr)))) lr (reached actual)"
  have "Strict laxValidator actual = Inr ?r"
    using Strict_eq[of laxValidator actual lr] lax by (simp add: reached_eq)
  moreover have "flaggedAt ?r (Path_String (woi_path woi))"
    if "woi \<in> set (reached actual)"
      and "\<forall>s\<in>fst ` set (Fields lr). \<not> prefix (Path_String (woi_path woi)) s" for woi
    using that by (rule flagged_uncovered)
  moreover have "lookupResult ?r (Path_String (woi_path woi)) = lookupResult lr (Path_String (woi_path woi))"
    if "coveredByCheck lr (woi_path woi)" for woi
    using coveredByCheck_prefix[OF wk that] by (rule covered_unchanged)
  moreover have "lookupResult lr k = None
      \<and> (\<exists>woi\<in>set (reached actual). Path_String (woi_path woi) = k
            \<and> lookupResult ?r k = Some (woi_path woi, strictFailure))"
    if "lookupResult ?r k \<noteq> lookupResult lr k" for k
    using that by (rule changed_flagged)
  ultimately show ?thesis by blast
qed

theorem Strict_flags_witness:
  "the (fst (Compile noPredicates schemaNested)) actualNested = Inr \<lparr>Fields = [(''a.b'', pathAB, passed)]\<rparr>
   \<and> wellKeyed \<lparr>Fields = [(''a.b'', pathAB, passed)]\<rparr>
   \<and> (\<exists>r. Strict (the (fst (Compile noPredicates schemaNested))) actualNested = Inr r
         \<and> flaggedAt r ''a.c''
         \<and> lookupResult r ''a.b'' = Some (pathAB, passed)
         \<and> lookupResult r ''a'' = None)"
proof -
  let ?lax = "the (fst (Compile noPredicates schemaNested))"
  let ?lr = "\<lparr>Fields = [(''a.b'', pathAB, passed)]\<rparr>"
  have h1: "?lax actualNested = Inr ?lr" by (simp add: eval_defs)
  have h2: "wellKeyed ?lr" by (simp add: wellKeyed_def eval_defs)
  have reach: "\<lparr>woi_value = VScalar (SInt 2), woi_path = pathAC\<rparr> \<in> set (reached actualNested)"
    "\<lparr>woi_value = VScalar (SInt 1), woi_path = pathAB\<rparr> \<in> set (reached actualNested)"
    "\<lparr>woi_value = VMap Unnamed [(''b'', VScalar (SInt 1)), (''c'', VScalar (SInt 2))], woi_path = keyA\<rparr>
       \<in> set (reached actualNested)"
    by (simp_all add: reached_def collect_def eval_defs)
  have strs: "Path_String pathAC = ''a.c''" "Path_String pathAB = ''a.b''" "Path_String keyA = ''a''"
    by (simp_all add: eval_defs)
  have unc: "\<forall>s\<in>fst ` set (Fields ?lr). \<not> prefix (Path_String pathAC) s"
    by (simp add: strs)
  have cov: "coveredByCheck ?lr pathAB" "coveredByCheck ?lr keyA"
    by (simp_all add: coveredByCheck_def recordedPaths_def eval_defs)
  from Strict_flags [of ?lax actualNested ?lr] h1 h2 obtain r where
    r: "Strict ?lax actualNested = Inr r"
    and each: "\<forall>woi\<in>set (reached actualNested).
           ((\<forall>s\<in>fst ` set (Fields ?lr). \<not> prefix (Path_String (woi_path woi)) s)
              \<longrightarrow> flaggedAt r (Path_String (woi_path woi)))
         \<and> (coveredByCheck ?lr (woi_path woi)
              \<longrightarrow> lookupResult r (Path_String (woi_path woi))
                    = lookupResult ?lr (Path_String (woi_path woi)))"
    by blast
  have "flaggedAt r ''a.c''" using each reach(1) unc strs(1) by force
  moreover have "lookupResult r ''a.b'' = Some (pathAB, passed)"
    using each reach(2) cov(1) strs(2) by (force simp: lookupResult_def)
  moreover have "lookupResult r ''a'' = None"
    using each reach(3) cov(2) strs(3) by (force simp: lookupResult_def)
  ultimately show ?thesis using h1 h2 r by blast
qed

subsection \<open>A slice schema and an unexpected key\<close>

text \<open>
  C5. The claim is that a compiled \<^verbatim>\<open>Slice\<close> schema always enforces closed-schema semantics
  on the actual sequence. The schema \<^verbatim>\<open>[{"ab": 1}]\<close> compiles to the one flat validator at
  \<open>[0].ab\<close>. The actual value \<^verbatim>\<open>[{"a": 5, "ab": 1}]\<close> holds the key \<open>a\<close> at \<open>[0].a\<close>, which
  the schema does not mention, and the validator returns the report with the single
  passing entry at \<open>[0].ab\<close>: the unexpected key is accepted. \<^verbatim>\<open>Strict\<close> takes \<open>[0].a\<close> for
  covered because the recorded string \<open>[0].ab\<close> starts with it.
\<close>

theorem compileSlice_accepts_unexpected_key:
  "compiledOf schemaSliceAB = [\<lparr>fv_path = path0AB, fv_isDef = IsEqual (VScalar (SInt 1))\<rparr>]
   \<and> \<lparr>woi_value = VScalar (SInt 5), woi_path = path0A\<rparr> \<in> set (reached actualSliceA_AB)
   \<and> Path_String path0A = ''[0].a''
   \<and> the (fst (Compile noPredicates schemaSliceAB)) actualSliceA_AB
       = Inr \<lparr>Fields = [(''[0].ab'', path0AB, passed)]\<rparr>"
proof -
  have a: "compiledOf schemaSliceAB = [\<lparr>fv_path = path0AB, fv_isDef = IsEqual (VScalar (SInt 1))\<rparr>]"
    by (simp add: eval_defs)
  have b: "\<lparr>woi_value = VScalar (SInt 5), woi_path = path0A\<rparr> \<in> set (reached actualSliceA_AB)"
    by (simp add: reached_def collect_def eval_defs)
  have c: "Path_String path0A = ''[0].a''"
    by (simp add: eval_defs)
  have d: "the (fst (Compile noPredicates schemaSliceAB)) actualSliceA_AB
       = Inr \<lparr>Fields = [(''[0].ab'', path0AB, passed)]\<rparr>"
    by (simp add: eval_defs strict_defs)
  from a b c d show ?thesis by blast
qed

section \<open>Which nodes become flat validators\<close>

lemma nodes_prefix:
  "woi \<in> set (nodesFull v p) \<Longrightarrow> prefix p (woi_path woi)"
  "woi \<in> set (nodesMap m p) \<Longrightarrow> \<exists>k\<in>fst ` set m. prefix (ExtendMap p k) (woi_path woi)"
  "woi \<in> set (nodesSlice xs idx p) \<Longrightarrow>
     \<exists>i. idx \<le> i \<and> i < idx + length xs \<and> prefix (ExtendSlice p (int i)) (woi_path woi)"
proof (induction v p and m p and xs idx p arbitrary: woi and woi and woi
    rule: nodesFull_nodesMap_nodesSlice.induct)
  case (1 v p)
  have ext: "prefix p (ExtendMap p k)" "prefix p (ExtendSlice p i)" for k i
    by (simp_all add: ExtendMap_def ExtendSlice_def Extend_def)
  show ?case
  proof (cases v)
    case (VMap t m)
    with "1.prems" consider "woi_path woi = p" | "woi \<in> set (nodesMap m p)"
      by (auto simp: nodesFull.simps)
    then show ?thesis
    proof cases
      case 1
      then show ?thesis by simp
    next
      case 2
      from "1.IH"(1)[OF VMap this] obtain k where "prefix (ExtendMap p k) (woi_path woi)" by blast
      with ext(1)[of k] show ?thesis by (rule prefix_order.trans)
    qed
  next
    case (VSlice t xs)
    with "1.prems" consider "woi_path woi = p" | "woi \<in> set (nodesSlice xs 0 p)"
      by (auto simp: nodesFull.simps)
    then show ?thesis
    proof cases
      case 1
      then show ?thesis by simp
    next
      case 2
      from "1.IH"(2)[OF VSlice this] obtain i where "prefix (ExtendSlice p (int i)) (woi_path woi)"
        by blast
      with ext(2)[of "int i"] show ?thesis by (rule prefix_order.trans)
    qed
  qed (use "1.prems" in \<open>auto simp: nodesFull.simps\<close>)
next
  case (2 p)
  then show ?case by simp
next
  case (3 k v m p)
  then show ?case by fastforce
next
  case (4 idx p)
  then show ?case by simp
next
  case (5 v xs idx p)
  from "5.prems" consider "woi \<in> set (nodesFull v (ExtendSlice p (int idx)))"
    | "woi \<in> set (nodesSlice xs (Suc idx) p)" by auto
  then show ?case
  proof cases
    case 1
    then have "prefix (ExtendSlice p (int idx)) (woi_path woi)" by (rule "5.IH"(1))
    then show ?thesis by auto
  next
    case 2
    from "5.IH"(2)[OF this] obtain i where
      "Suc idx \<le> i" "i < Suc idx + length xs" "prefix (ExtendSlice p (int i)) (woi_path woi)"
      by blast
    then show ?thesis by (intro exI[of _ i]) simp
  qed
qed

lemma prefix_snoc_same: "prefix (p @ [a]) q \<Longrightarrow> prefix (p @ [b]) q \<Longrightarrow> a = b"
  by (auto simp: prefix_def)

lemma prefix_ExtendMap_same:
  "prefix (ExtendMap p k) q \<Longrightarrow> prefix (ExtendMap p k') q \<Longrightarrow> k = k'"
  unfolding ExtendMap_def Extend_def by (drule (1) prefix_snoc_same) simp

lemma prefix_ExtendSlice_same:
  "prefix (ExtendSlice p i) q \<Longrightarrow> prefix (ExtendSlice p j) q \<Longrightarrow> i = j"
  unfolding ExtendSlice_def Extend_def by (drule (1) prefix_snoc_same) simp

lemma children_strict:
  "woi \<in> set (nodesMap m p) \<Longrightarrow> strict_prefix p (woi_path woi)"
  "woi \<in> set (nodesSlice xs idx p) \<Longrightarrow> strict_prefix p (woi_path woi)"
proof -
  have a: "prefix (p @ [c]) q \<Longrightarrow> strict_prefix p q" for c q
    by (auto simp: prefix_def strict_prefix_def)
  show "woi \<in> set (nodesMap m p) \<Longrightarrow> strict_prefix p (woi_path woi)"
    using nodes_prefix(2)[of woi m p] a by (auto simp: ExtendMap_def Extend_def)
  show "woi \<in> set (nodesSlice xs idx p) \<Longrightarrow> strict_prefix p (woi_path woi)"
    using nodes_prefix(3)[of woi xs idx p] a by (auto simp: ExtendSlice_def Extend_def)
qed

text \<open>
  In a well-formed tree no two reached nodes have the same path.
\<close>

lemma nodes_distinct:
  "wellFormed v \<Longrightarrow> distinct (map woi_path (nodesFull v p))"
  "distinct (map fst m) \<Longrightarrow> wellFormedMap m \<Longrightarrow> distinct (map woi_path (nodesMap m p))"
  "wellFormedSlice xs \<Longrightarrow> distinct (map woi_path (nodesSlice xs idx p))"
proof (induction v p and m p and xs idx p rule: nodesFull_nodesMap_nodesSlice.induct)
  case (1 v p)
  show ?case
  proof (cases v)
    case (VMap t m)
    have "p \<notin> woi_path ` set (nodesMap m p)" using children_strict(1) by fastforce
    moreover have "distinct (map woi_path (nodesMap m p))"
      using "1.IH"(1)[OF VMap] "1.prems" VMap by (simp add: wellFormed.simps)
    ultimately show ?thesis by (simp add: VMap nodesFull.simps)
  next
    case (VSlice t xs)
    have "p \<notin> woi_path ` set (nodesSlice xs 0 p)" using children_strict(2) by fastforce
    moreover have "distinct (map woi_path (nodesSlice xs 0 p))"
      using "1.IH"(2)[OF VSlice] "1.prems" VSlice by (simp add: wellFormed.simps)
    ultimately show ?thesis by (simp add: VSlice nodesFull.simps)
  qed (simp_all add: nodesFull.simps)
next
  case (2 p)
  then show ?case by simp
next
  case (3 k v m p)
  have disj: "woi_path ` set (nodesFull v (ExtendMap p k)) \<inter> woi_path ` set (nodesMap m p) = {}"
  proof (rule ccontr)
    assume "\<not> ?thesis"
    then obtain w w' where w: "w \<in> set (nodesFull v (ExtendMap p k))" "w' \<in> set (nodesMap m p)"
      "woi_path w = woi_path w'" by auto
    from nodes_prefix(1)[OF w(1)] have "prefix (ExtendMap p k) (woi_path w)" .
    moreover from nodes_prefix(2)[OF w(2)] obtain k' where
      "k' \<in> fst ` set m" "prefix (ExtendMap p k') (woi_path w')" by blast
    ultimately have "k \<in> fst ` set m" using w(3) prefix_ExtendMap_same by metis
    with "3.prems" show False by simp
  qed
  from 3 disj show ?case by simp
next
  case (4 idx p)
  then show ?case by simp
next
  case (5 v xs idx p)
  have disj: "woi_path ` set (nodesFull v (ExtendSlice p (int idx)))
      \<inter> woi_path ` set (nodesSlice xs (Suc idx) p) = {}"
  proof (rule ccontr)
    assume "\<not> ?thesis"
    then obtain w w' where w: "w \<in> set (nodesFull v (ExtendSlice p (int idx)))"
      "w' \<in> set (nodesSlice xs (Suc idx) p)" "woi_path w = woi_path w'" by auto
    from nodes_prefix(1)[OF w(1)] have "prefix (ExtendSlice p (int idx)) (woi_path w)" .
    moreover from nodes_prefix(3)[OF w(2)] obtain i where
      "Suc idx \<le> i" "prefix (ExtendSlice p (int i)) (woi_path w')" by blast
    ultimately show False using w(3) prefix_ExtendSlice_same[of p "int idx" "woi_path w" "int i"]
      by simp
  qed
  from 5 disj show ?case by simp
qed

lemma fold_setupWalkObserver:
  "foldl (\<lambda>s woi. snd (setupWalkObserver woi s)) acc ns = acc @ map toFlat (filter tested ns)"
  by (induction ns arbitrary: acc) (simp_all add: setupWalkObserver_def toFlat_def tested_def)

text \<open>
  The compiled schema holds one flat validator for every reached node that is not a
  non-empty collection, in the order of the walk.
\<close>

lemma compiled_walkFull:
  "snd (walkFull v p setupWalkObserver []) = map toFlat (filter tested (nodesFull v p))"
  by (simp add: walkFull_total(1)[OF setupWalkObserver_ok] fold_setupWalkObserver)

lemma compiledOf_subset:
  "pv \<in> set (compiledOf s) \<Longrightarrow> \<exists>w\<in>set (reached s). tested w \<and> pv = toFlat w"
  by (cases s rule: compiledOf.cases)
     (auto simp: walkMap_def walkSlice_def compiled_walkFull reached_eq)

lemma fv_path_toFlat: "fv_path (toFlat w) = woi_path w"
  by (simp add: toFlat_def)

text \<open>
  C6. For a well-formed schema tree and a non-empty map or slice that the walk reaches in
  it, no flat validator of the compiled schema has the path of that container; the flat
  validators at or below that path are strictly below it, and so is every flat validator
  the walk of the container itself produces.
\<close>

theorem nonempty_collection_not_compiled:
  assumes wf: "wellFormed s" and w: "woi \<in> set (reached s)"
    and coll: "isCollection (woi_value woi)" and ne: "0 < Len (woi_value woi)"
  shows "(\<forall>pv\<in>set (compiledOf s).
            fv_path pv \<noteq> woi_path woi
            \<and> (prefix (woi_path woi) (fv_path pv) \<longrightarrow> strict_prefix (woi_path woi) (fv_path pv)))
       \<and> (\<forall>pv\<in>set (snd (walkFull (woi_value woi) (woi_path woi) setupWalkObserver [])).
            strict_prefix (woi_path woi) (fv_path pv))"
proof -
  have d: "distinct (map woi_path (reached s))" using nodes_distinct(1)[OF wf] by (simp add: reached_eq)
  have nt: "\<not> tested woi" using coll ne by (simp add: tested_def)
  have a: "fv_path pv \<noteq> woi_path woi" if "pv \<in> set (compiledOf s)" for pv
  proof
    assume eq: "fv_path pv = woi_path woi"
    from compiledOf_subset[OF that] obtain w' where
      w': "w' \<in> set (reached s)" "tested w'" "pv = toFlat w'" by blast
    then have "woi_path w' = woi_path woi" using eq by (simp add: fv_path_toFlat)
    with d w w'(1) have "w' = woi" by (meson distinct_map inj_onD)
    with nt w'(2) show False by simp
  qed
  have b: "strict_prefix (woi_path woi) (fv_path pv)"
    if "pv \<in> set (snd (walkFull (woi_value woi) (woi_path woi) setupWalkObserver []))" for pv
  proof -
    from that obtain w' where w': "w' \<in> set (nodesFull (woi_value woi) (woi_path woi))"
      "tested w'" "pv = toFlat w'" by (auto simp: compiled_walkFull)
    have "w' \<noteq> \<lparr>woi_value = woi_value woi, woi_path = woi_path woi\<rparr>"
      using nt w'(2) by (auto simp: tested_def)
    with w'(1) have "strict_prefix (woi_path woi) (woi_path w')"
      using children_strict(1)[of w' _ "woi_path woi"] children_strict(2)[of w' _ 0 "woi_path woi"]
      by (cases "woi_value woi") (auto simp: nodesFull.simps)
    then show ?thesis by (simp add: w'(3) fv_path_toFlat)
  qed
  have a': "prefix (woi_path woi) (fv_path pv) \<longrightarrow> strict_prefix (woi_path woi) (fv_path pv)"
    if "pv \<in> set (compiledOf s)" for pv
    using a[OF that] by (auto simp: strict_prefix_def)
  show ?thesis using a a' b by blast
qed

theorem nonempty_collection_not_compiled_witness:
  "wellFormed schemaNested
   \<and> \<lparr>woi_value = VMap Named [(''b'', isEq1)], woi_path = keyA\<rparr> \<in> set (reached schemaNested)
   \<and> isCollection (VMap Named [(''b'', isEq1)]) \<and> 0 < Len (VMap Named [(''b'', isEq1)])
   \<and> compiledOf schemaNested \<noteq> []
   \<and> keyA \<notin> fv_path ` set (compiledOf schemaNested)"
proof -
  let ?w = "\<lparr>woi_value = VMap Named [(''b'', isEq1)], woi_path = keyA\<rparr>"
  have wf: "wellFormed schemaNested" by (simp add: wellFormed.simps)
  have w: "?w \<in> set (reached schemaNested)" by (simp add: reached_def collect_def eval_defs)
  have c: "isCollection (woi_value ?w)" "0 < Len (woi_value ?w)" by simp_all
  have ne: "compiledOf schemaNested \<noteq> []" by (simp add: eval_defs)
  from nonempty_collection_not_compiled [OF wf w c]
  have "keyA \<notin> fv_path ` set (compiledOf schemaNested)" by auto
  with wf w c ne show ?thesis by simp
qed

end
